theory Spec2Isabelle
  imports Main "HOL-Library.Word"
begin

unbundle bit_operations_syntax

section \<open>The opaque-identifier encryption service of \<^verbatim>\<open>src/lib/utils.server.ts\<close>\<close>

text \<open>
  The class \<^verbatim>\<open>EncryptionService\<close> turns a JavaScript string into a URL-safe token
  \<^verbatim>\<open>base64url(iv[12] + authTag[16] + ciphertext)\<close> with AES-256-GCM under a key derived
  by scrypt, and back.  Its methods call the runtime's built-in \<^verbatim>\<open>Buffer\<close> and
  \<^verbatim>\<open>crypto\<close> modules.  The text codecs of \<^verbatim>\<open>Buffer\<close> (hex, base64url, UTF-8) are
  modelled concretely below.  The three cryptographic primitives (scrypt, the AES-256
  counter-mode keystream and the GCM tag) are values of the record \<open>crypto\<close>: the theorems
  hold for all of them, except where one names the instance \<open>sample_crypto\<close>.
\<close>

subsection \<open>Bytes and JavaScript strings\<close>

text \<open>
  A \<^verbatim>\<open>Buffer\<close> is a list of bytes.  A JavaScript string is a list of UTF-16 code units;
  it need not be well-formed Unicode (a surrogate may stand alone).  The strings the
  service writes itself (hex strings and the token \<^verbatim>\<open>encrypt\<close> returns) consist of ASCII
  characters and are strings of one-byte characters (\<open>string\<close>); \<open>js\<close> reads such a string
  as a JavaScript string.  The argument of \<^verbatim>\<open>decrypt\<close> is any JavaScript string.
\<close>

type_synonym byte = "8 word"
type_synonym code_unit = "16 word"
type_synonym jsstring = "code_unit list"

definition js :: "string \<Rightarrow> jsstring" where
  "js s = map of_char s"

text \<open>\<^verbatim>\<open>buf.slice(start, end)\<close> for \<open>0 \<le> start \<le> end\<close>: indices past the end are clamped.\<close>

definition slice :: "nat \<Rightarrow> nat \<Rightarrow> 'a list \<Rightarrow> 'a list" where
  "slice start stop xs = take (stop - start) (drop start xs)"

subsection \<open>Hex: \<^verbatim>\<open>buf.toString("hex")\<close> and \<^verbatim>\<open>Buffer.from(s, "hex")\<close>\<close>

definition hex_table :: string where
  "hex_table = ''0123456789abcdef''"

definition unhex :: "char \<Rightarrow> nat option" where
  "unhex ch = (let n = (of_char ch :: nat) in
     if 48 \<le> n \<and> n \<le> 57 then Some (n - 48)
     else if 97 \<le> n \<and> n \<le> 102 then Some (n - 87)
     else if 65 \<le> n \<and> n \<le> 70 then Some (n - 55)
     else None)"

definition toString_hex :: "byte list \<Rightarrow> string" where
  "toString_hex bs =
     concat (map (\<lambda>b. [hex_table ! (unat b div 16), hex_table ! (unat b mod 16)]) bs)"

text \<open>Decoding takes two digits per byte and stops at the first pair that is not hex.\<close>

fun Buffer_from_hex :: "string \<Rightarrow> byte list" where
  "Buffer_from_hex (a # b # rest) =
     (case (unhex a, unhex b) of
        (Some h, Some l) \<Rightarrow> of_nat (16 * h + l) # Buffer_from_hex rest
      | _ \<Rightarrow> [])"
| "Buffer_from_hex _ = []"

subsection \<open>Base64url: \<^verbatim>\<open>buf.toString("base64url")\<close> and \<^verbatim>\<open>Buffer.from(s, "base64url")\<close>\<close>

text \<open>
  The encoder writes the URL-safe alphabet
  \<^verbatim>\<open>ABCDEFGHIJKLMNOPQRSTUVWXYZabcdefghijklmnopqrstuvwxyz0123456789-_\<close> and no padding:
  three bytes give four characters, a last group of two bytes three characters, of one
  byte two characters.
\<close>

definition base64_char :: "nat \<Rightarrow> char" where
  "base64_char n =
     (if n < 26 then char_of (n + 65)
      else if n < 52 then char_of (n + 71)
      else if n < 62 then char_of (n - 4)
      else if n = 62 then CHR ''-'' else CHR ''_'')"

fun base64_groups :: "byte list \<Rightarrow> nat list" where
  "base64_groups (a # b # c # rest) =
     [unat a div 4, (unat a mod 4) * 16 + unat b div 16,
      (unat b mod 16) * 4 + unat c div 64, unat c mod 64] @ base64_groups rest"
| "base64_groups [a, b] =
     [unat a div 4, (unat a mod 4) * 16 + unat b div 16, (unat b mod 16) * 4]"
| "base64_groups [a] = [unat a div 4, (unat a mod 4) * 16]"
| "base64_groups [] = []"

definition toString_base64url :: "byte list \<Rightarrow> string" where
  "toString_base64url bs = map base64_char (base64_groups bs)"

text \<open>
  The decoder is the runtime's lenient one and never throws.  It reads every code unit
  of the string by its low byte (the cast to an 8-bit character), so that a code unit
  above \<open>0xFF\<close> counts as the character of its low byte.  It accepts the standard and the
  URL-safe alphabet (\<open>+\<close> and \<open>-\<close> are 62, \<open>/\<close> and \<open>_\<close> are 63), skips every other
  character, and stops at the first \<open>=\<close>.  The legal characters are decoded in groups of
  four; a last group of three gives two bytes, of two one byte, and a single left-over
  character gives nothing.
\<close>

definition low_byte :: "code_unit \<Rightarrow> char" where
  "low_byte u = char_of (unat u)"

definition unbase64 :: "char \<Rightarrow> nat option" where
  "unbase64 ch = (let n = (of_char ch :: nat) in
     if 65 \<le> n \<and> n \<le> 90 then Some (n - 65)
     else if 97 \<le> n \<and> n \<le> 122 then Some (n - 71)
     else if 48 \<le> n \<and> n \<le> 57 then Some (n + 4)
     else if n = 43 \<or> n = 45 then Some 62
     else if n = 47 \<or> n = 95 then Some 63
     else None)"

fun legal_sextets :: "jsstring \<Rightarrow> nat list" where
  "legal_sextets [] = []"
| "legal_sextets (u # rest) =
     (case unbase64 (low_byte u) of
        Some v \<Rightarrow> v # legal_sextets rest
      | None \<Rightarrow> if low_byte u = CHR ''='' then [] else legal_sextets rest)"

fun base64_decode_groups :: "nat list \<Rightarrow> byte list" where
  "base64_decode_groups (s0 # s1 # s2 # s3 # rest) =
     [of_nat (s0 * 4 + s1 div 16), of_nat ((s1 mod 16) * 16 + s2 div 4),
      of_nat ((s2 mod 4) * 64 + s3)] @ base64_decode_groups rest"
| "base64_decode_groups [s0, s1, s2] =
     [of_nat (s0 * 4 + s1 div 16), of_nat ((s1 mod 16) * 16 + s2 div 4)]"
| "base64_decode_groups [s0, s1] = [of_nat (s0 * 4 + s1 div 16)]"
| "base64_decode_groups _ = []"

definition Buffer_from_base64url :: "jsstring \<Rightarrow> byte list" where
  "Buffer_from_base64url s = base64_decode_groups (legal_sextets s)"


subsection \<open>UTF-8: string arguments with encoding \<^verbatim>\<open>"utf8"\<close>\<close>

text \<open>
  Encoding a JavaScript string as UTF-8 reads its code units as UTF-16: a high surrogate
  followed by a low surrogate is one code point beyond the basic plane, and a surrogate
  that stands alone is replaced by U+FFFD.
\<close>

definition is_high_surrogate :: "nat \<Rightarrow> bool" where
  "is_high_surrogate u = (0xD800 \<le> u \<and> u \<le> 0xDBFF)"

definition is_low_surrogate :: "nat \<Rightarrow> bool" where
  "is_low_surrogate u = (0xDC00 \<le> u \<and> u \<le> 0xDFFF)"

fun code_points :: "nat list \<Rightarrow> nat list" where
  "code_points [] = []"
| "code_points (u # us) =
     (if is_high_surrogate u then
        (case us of
           [] \<Rightarrow> [0xFFFD]
         | v # vs \<Rightarrow>
             if is_low_surrogate v
             then (0x10000 + (u - 0xD800) * 0x400 + (v - 0xDC00)) # code_points vs
             else 0xFFFD # code_points us)
      else if is_low_surrogate u then 0xFFFD # code_points us
      else u # code_points us)"

definition utf8_encode_cp :: "nat \<Rightarrow> nat list" where
  "utf8_encode_cp cp =
     (if cp < 0x80 then [cp]
      else if cp < 0x800 then [0xC0 + cp div 64, 0x80 + cp mod 64]
      else if cp < 0x10000 then
        [0xE0 + cp div 4096, 0x80 + cp div 64 mod 64, 0x80 + cp mod 64]
      else [0xF0 + cp div 262144, 0x80 + cp div 4096 mod 64, 0x80 + cp div 64 mod 64,
            0x80 + cp mod 64])"

definition Buffer_from_utf8 :: "jsstring \<Rightarrow> byte list" where
  "Buffer_from_utf8 s = map of_nat (concat (map utf8_encode_cp (code_points (map unat s))))"

text \<open>
  Decoding follows the UTF-8 decoder of the Encoding standard: the state is the code point
  collected so far, the number of continuation bytes still needed, and the bounds the
  next byte must respect.  An ill-formed or truncated sequence gives U+FFFD, and the byte
  that broke a sequence is read again as the start of the next one.  No byte order mark
  is removed.
\<close>

type_synonym utf8_state = "nat \<times> nat \<times> nat \<times> nat"

definition utf8_initial :: utf8_state where
  "utf8_initial = (0, 0, 0x80, 0xBF)"

definition utf8_start :: "nat \<Rightarrow> nat list \<times> utf8_state" where
  "utf8_start b =
     (if b \<le> 0x7F then ([b], utf8_initial)
      else if 0xC2 \<le> b \<and> b \<le> 0xDF then ([], (b mod 32, 1, 0x80, 0xBF))
      else if 0xE0 \<le> b \<and> b \<le> 0xEF then
        ([], (b mod 16, 2, if b = 0xE0 then 0xA0 else 0x80, if b = 0xED then 0x9F else 0xBF))
      else if 0xF0 \<le> b \<and> b \<le> 0xF4 then
        ([], (b mod 8, 3, if b = 0xF0 then 0x90 else 0x80, if b = 0xF4 then 0x8F else 0xBF))
      else ([0xFFFD], utf8_initial))"

fun utf8_dec :: "utf8_state \<Rightarrow> nat list \<Rightarrow> nat list" where
  "utf8_dec (cp, needed, lo, hi) [] = (if needed = 0 then [] else [0xFFFD])"
| "utf8_dec (cp, needed, lo, hi) (b # bs) =
     (if needed = 0 then
        (case utf8_start b of (out, st) \<Rightarrow> out @ utf8_dec st bs)
      else if b < lo \<or> hi < b then
        (case utf8_start b of (out, st) \<Rightarrow> 0xFFFD # out @ utf8_dec st bs)
      else if needed = 1 then (cp * 64 + b mod 64) # utf8_dec utf8_initial bs
      else utf8_dec (cp * 64 + b mod 64, needed - 1, 0x80, 0xBF) bs)"

definition utf16_units :: "nat \<Rightarrow> nat list" where
  "utf16_units cp =
     (if cp < 0x10000 then [cp]
      else [0xD800 + (cp - 0x10000) div 0x400, 0xDC00 + (cp - 0x10000) mod 0x400])"

definition toString_utf8 :: "byte list \<Rightarrow> jsstring" where
  "toString_utf8 bs =
     map of_nat (concat (map utf16_units (utf8_dec utf8_initial (map unat bs))))"

text \<open>
  \<^verbatim>\<open>String.prototype.isWellFormed\<close>: no surrogate stands alone.  These are the strings
  that UTF-8 can represent.
\<close>

fun isWellFormed_units :: "nat list \<Rightarrow> bool" where
  "isWellFormed_units [] = True"
| "isWellFormed_units (u # us) =
     (if is_high_surrogate u then
        (case us of
           [] \<Rightarrow> False
         | v # vs \<Rightarrow> is_low_surrogate v \<and> isWellFormed_units vs)
      else \<not> is_low_surrogate u \<and> isWellFormed_units us)"

definition isWellFormed :: "jsstring \<Rightarrow> bool" where
  "isWellFormed s = isWellFormed_units (map unat s)"

text \<open>
  \<^verbatim>\<open>String.prototype.toWellFormed\<close>: every surrogate that stands alone is replaced by
  U+FFFD.
\<close>

fun toWellFormed_units :: "nat list \<Rightarrow> nat list" where
  "toWellFormed_units [] = []"
| "toWellFormed_units (u # us) =
     (if is_high_surrogate u then
        (case us of
           [] \<Rightarrow> [0xFFFD]
         | v # vs \<Rightarrow>
             if is_low_surrogate v then u # v # toWellFormed_units vs
             else 0xFFFD # toWellFormed_units us)
      else if is_low_surrogate u then 0xFFFD # toWellFormed_units us
      else u # toWellFormed_units us)"

definition toWellFormed :: "jsstring \<Rightarrow> jsstring" where
  "toWellFormed s = map of_nat (toWellFormed_units (map unat s))"

text \<open>The Unicode scalar values: the code points that are no surrogates.\<close>

definition scalar :: "nat \<Rightarrow> bool" where
  "scalar cp = (cp < 0x110000 \<and> \<not> (0xD800 \<le> cp \<and> cp \<le> 0xDFFF))"

subsection \<open>The \<^verbatim>\<open>crypto\<close> module\<close>

text \<open>
  The primitives the service takes from the runtime:
  \<^item> \<open>scryptSync c password salt\<close> is \<^verbatim>\<open>scryptSync(password, salt, 32)\<close>, a 32-byte key;
  \<^item> \<open>keystream c key iv i\<close> is byte \<open>i\<close> of the AES-256 counter-mode keystream that GCM
    uses for this key and initialization vector;
  \<^item> \<open>gcm_tag c key iv ciphertext\<close> is the full 16-byte GCM authentication tag of a
    ciphertext with no associated data.
\<close>

record crypto =
  scryptSync :: "byte list \<Rightarrow> byte list \<Rightarrow> 256 word"
  keystream :: "256 word \<Rightarrow> byte list \<Rightarrow> nat \<Rightarrow> byte"
  gcm_tag :: "256 word \<Rightarrow> byte list \<Rightarrow> byte list \<Rightarrow> 128 word"

text \<open>The errors the module throws on the paths the service takes.\<close>

datatype crypto_error =
    Invalid_initialization_vector
  | Invalid_authentication_tag_length nat
  | Unable_to_authenticate_data

text \<open>The 16 bytes of a tag, most significant first.\<close>

definition tag_bytes :: "128 word \<Rightarrow> byte list" where
  "tag_bytes t = map (\<lambda>i. ucast (drop_bit (8 * (15 - i)) t)) [0..<16]"

text \<open>GCM encrypts and decrypts by XOR with the keystream, from a byte offset on.\<close>

definition keystream_xor :: "crypto \<Rightarrow> 256 word \<Rightarrow> byte list \<Rightarrow> nat \<Rightarrow> byte list \<Rightarrow> byte list" where
  "keystream_xor c k iv off bs =
     map (\<lambda>(i, b). b XOR keystream c k iv (off + i)) (zip [0..<length bs] bs)"

text \<open>
  A cipher object of \<^verbatim>\<open>createCipheriv("aes-256-gcm", key, iv)\<close>: the key, the
  initialization vector and the ciphertext written so far.  GCM takes an initialization
  vector of any length but zero.
\<close>

record Cipher =
  cipher_key :: "256 word"
  cipher_iv :: "byte list"
  cipher_written :: "byte list"

definition createCipheriv :: "256 word \<Rightarrow> byte list \<Rightarrow> crypto_error + Cipher" where
  "createCipheriv k iv =
     (if iv = [] then Inl Invalid_initialization_vector
      else Inr \<lparr>cipher_key = k, cipher_iv = iv, cipher_written = []\<rparr>)"

definition cipher_update :: "crypto \<Rightarrow> Cipher \<Rightarrow> byte list \<Rightarrow> Cipher \<times> byte list" where
  "cipher_update c ci bs =
     (let out = keystream_xor c (cipher_key ci) (cipher_iv ci) (length (cipher_written ci)) bs
      in (ci\<lparr>cipher_written := cipher_written ci @ out\<rparr>, out))"

text \<open>GCM is a stream mode: \<^verbatim>\<open>cipher.final()\<close> has no buffered block to write.\<close>

definition cipher_final :: "Cipher \<Rightarrow> byte list" where
  "cipher_final ci = []"

definition getAuthTag :: "crypto \<Rightarrow> Cipher \<Rightarrow> byte list" where
  "getAuthTag c ci = tag_bytes (gcm_tag c (cipher_key ci) (cipher_iv ci) (cipher_written ci))"

text \<open>
  A decipher object of \<^verbatim>\<open>createDecipheriv("aes-256-gcm", key, iv)\<close>: the key, the
  initialization vector, the expected tag once set, and the ciphertext read so far.
  \<^verbatim>\<open>setAuthTag\<close> takes the tag lengths GCM allows (4, 8 and 12 to 16 bytes) and throws
  on any other.  \<^verbatim>\<open>final\<close> compares the expected tag with as many leading bytes of the
  computed one and throws when they differ.
\<close>

record Decipher =
  decipher_key :: "256 word"
  decipher_iv :: "byte list"
  decipher_tag :: "byte list option"
  decipher_read :: "byte list"

definition createDecipheriv :: "256 word \<Rightarrow> byte list \<Rightarrow> crypto_error + Decipher" where
  "createDecipheriv k iv =
     (if iv = [] then Inl Invalid_initialization_vector
      else Inr \<lparr>decipher_key = k, decipher_iv = iv, decipher_tag = None, decipher_read = []\<rparr>)"

definition valid_gcm_tag_length :: "nat \<Rightarrow> bool" where
  "valid_gcm_tag_length n = (n = 4 \<or> n = 8 \<or> (12 \<le> n \<and> n \<le> 16))"

definition setAuthTag :: "Decipher \<Rightarrow> byte list \<Rightarrow> crypto_error + Decipher" where
  "setAuthTag d t =
     (if valid_gcm_tag_length (length t) then Inr (d\<lparr>decipher_tag := Some t\<rparr>)
      else Inl (Invalid_authentication_tag_length (length t)))"

definition decipher_update :: "crypto \<Rightarrow> Decipher \<Rightarrow> byte list \<Rightarrow> Decipher \<times> byte list" where
  "decipher_update c d bs =
     (let out = keystream_xor c (decipher_key d) (decipher_iv d) (length (decipher_read d)) bs
      in (d\<lparr>decipher_read := decipher_read d @ bs\<rparr>, out))"

definition decipher_final :: "crypto \<Rightarrow> Decipher \<Rightarrow> crypto_error + byte list" where
  "decipher_final c d =
     (case decipher_tag d of
        None \<Rightarrow> Inl Unable_to_authenticate_data
      | Some t \<Rightarrow>
          if take (length t)
               (tag_bytes (gcm_tag c (decipher_key d) (decipher_iv d) (decipher_read d))) = t
          then Inr []
          else Inl Unable_to_authenticate_data)"

subsection \<open>\<^verbatim>\<open>class EncryptionService\<close>\<close>

text \<open>
  The object holds the derived key; \<^verbatim>\<open>SALT\<close> is a constant.  A method takes the object
  and returns its result together with the object as the call leaves it.  What a method
  throws is a value: the constructor's error, or the error of the \<^verbatim>\<open>crypto\<close> call that
  failed, which the method's \<^verbatim>\<open>catch\<close> wraps in a new \<^verbatim>\<open>Error\<close> under the method's name.
\<close>

record EncryptionService =
  key :: "256 word"

definition SALT :: jsstring where
  "SALT = js ''wedding-gallery-v2''"

datatype service_error =
    ENCRYPTION_KEY_is_required
  | EncryptionService_encrypt crypto_error
  | EncryptionService_decrypt crypto_error

text \<open>
  \<^verbatim>\<open>constructor()\<close>: \<open>env\<close> is \<^verbatim>\<open>process.env.ENCRYPTION_KEY\<close>, \<open>None\<close> when the variable is
  not set.  An unset and an empty variable are both falsy.
\<close>

definition constructor :: "crypto \<Rightarrow> jsstring option \<Rightarrow> service_error + EncryptionService" where
  "constructor c env =
     (case env of
        None \<Rightarrow> Inl ENCRYPTION_KEY_is_required
      | Some secret \<Rightarrow>
          if secret = [] then Inl ENCRYPTION_KEY_is_required
          else Inr \<lparr>key = scryptSync c (Buffer_from_utf8 secret) (Buffer_from_utf8 SALT)\<rparr>)"

text \<open>
  \<^verbatim>\<open>encrypt(data, forceKey?)\<close>: \<open>forceKey\<close> is \<open>None\<close> when the argument is left out;
  an empty string is falsy and selects the object's key as well.  \<open>random12\<close> is what
  \<^verbatim>\<open>randomBytes(12)\<close> returns in this call.
\<close>

definition encrypt ::
  "crypto \<Rightarrow> jsstring \<Rightarrow> jsstring option \<Rightarrow> byte list \<Rightarrow> EncryptionService
   \<Rightarrow> (service_error + string) \<times> EncryptionService" where
  "encrypt c data forceKey random12 this =
     (let k = (case forceKey of
                 None \<Rightarrow> key this
               | Some f \<Rightarrow>
                   if f = [] then key this
                   else scryptSync c (Buffer_from_utf8 f) (Buffer_from_utf8 SALT));
          iv = random12
      in case createCipheriv k iv of
           Inl e \<Rightarrow> (Inl (EncryptionService_encrypt e), this)
         | Inr cipher \<Rightarrow>
             (let (cipher1, out) = cipher_update c cipher (Buffer_from_utf8 data);
                  encrypted = toString_hex out @ toString_hex (cipher_final cipher1);
                  authTag = getAuthTag c cipher1;
                  combined = iv @ authTag @ Buffer_from_hex encrypted
              in (Inr (toString_base64url combined), this)))"

text \<open>
  \<^verbatim>\<open>decrypt(encoded, forceKey?)\<close>.  The two output strings of \<^verbatim>\<open>update\<close> and \<^verbatim>\<open>final\<close>
  come from one streaming UTF-8 decoder, so their concatenation is the decoding of all
  plaintext bytes.  \<^verbatim>\<open>update\<close> hands out plaintext before the tag is checked, but when
  \<^verbatim>\<open>final\<close> throws the method throws and that plaintext is dropped.
\<close>

definition decrypt ::
  "crypto \<Rightarrow> jsstring \<Rightarrow> jsstring option \<Rightarrow> EncryptionService
   \<Rightarrow> (service_error + jsstring) \<times> EncryptionService" where
  "decrypt c encoded forceKey this =
     (let k = (case forceKey of
                 None \<Rightarrow> key this
               | Some f \<Rightarrow>
                   if f = [] then key this
                   else scryptSync c (Buffer_from_utf8 f) (Buffer_from_utf8 SALT));
          combined = Buffer_from_base64url encoded;
          iv = slice 0 12 combined;
          authTag = slice 12 28 combined;
          encryptedHex = toString_hex (drop 28 combined)
      in case createDecipheriv k iv of
           Inl e \<Rightarrow> (Inl (EncryptionService_decrypt e), this)
         | Inr decipher \<Rightarrow>
             (case setAuthTag decipher authTag of
                Inl e \<Rightarrow> (Inl (EncryptionService_decrypt e), this)
              | Inr decipher1 \<Rightarrow>
                  (let (decipher2, out) = decipher_update c decipher1 (Buffer_from_hex encryptedHex)
                   in case decipher_final c decipher2 of
                        Inl e \<Rightarrow> (Inl (EncryptionService_decrypt e), this)
                      | Inr rest \<Rightarrow> (Inr (toString_utf8 (out @ rest)), this))))"

text \<open>The key a call works with, as both methods select it.\<close>

definition selected_key :: "crypto \<Rightarrow> jsstring option \<Rightarrow> EncryptionService \<Rightarrow> 256 word" where
  "selected_key c forceKey this =
     (case forceKey of
        None \<Rightarrow> key this
      | Some f \<Rightarrow>
          if f = [] then key this
          else scryptSync c (Buffer_from_utf8 f) (Buffer_from_utf8 SALT))"

text \<open>The envelope \<open>iv + authTag + ciphertext\<close> of a plaintext under a key.\<close>

definition ciphertext :: "crypto \<Rightarrow> 256 word \<Rightarrow> byte list \<Rightarrow> jsstring \<Rightarrow> byte list" where
  "ciphertext c k iv data = keystream_xor c k iv 0 (Buffer_from_utf8 data)"

definition envelope :: "crypto \<Rightarrow> 256 word \<Rightarrow> byte list \<Rightarrow> jsstring \<Rightarrow> byte list" where
  "envelope c k iv data =
     iv @ tag_bytes (gcm_tag c k iv (ciphertext c k iv data)) @ ciphertext c k iv data"

text \<open>A byte string with bit \<open>j\<close> of byte \<open>i\<close> inverted.\<close>

definition flip_bit_at :: "nat \<Rightarrow> nat \<Rightarrow> byte list \<Rightarrow> byte list" where
  "flip_bit_at i j bs = bs[i := bs ! i XOR push_bit j 1]"

text \<open>
  One instance of the primitives, to run the two methods on inputs where the outcome
  depends on them: the derived key is the number of password bytes, the keystream is
  zero and the tag is the low half of the key.  It has none of the strength of scrypt or
  AES-GCM; every statement below that does not name it holds for all primitives.
\<close>

definition sample_crypto :: crypto where
  "sample_crypto =
     \<lparr>scryptSync = (\<lambda>password salt. of_nat (length password)),
      keystream = (\<lambda>k iv i. 0),
      gcm_tag = (\<lambda>k iv ct. ucast k)\<rparr>"

section \<open>Properties of the codecs\<close>

subsection \<open>Hex\<close>

lemma unat_byte_less: "unat (b :: byte) < 256"
  using unsigned_less [of b, where ?'a = nat] by simp

lemma unhex_table: "n < 16 \<Longrightarrow> unhex (hex_table ! n) = Some n"
  by (simp add: less_Suc_eq numeral_eq_Suc) (auto simp: unhex_def hex_table_def)

lemma byte_div16: "unat (b :: byte) div 16 < 16"
  using unat_byte_less [of b] by simp

lemma hex_roundtrip: "Buffer_from_hex (toString_hex bs) = bs"
  by (induction bs) (simp_all add: toString_hex_def unhex_table byte_div16)

subsection \<open>Base64url\<close>

lemma unat_of_char: "unat (of_char ch :: code_unit) = of_char ch"
proof -
  have "(of_char ch :: nat) < 256" by simp
  then have "(of_char ch :: nat) < 2 ^ 16" by (rule less_trans) simp
  moreover have "(of_char ch :: code_unit) = of_nat (of_char ch)" by (simp add: of_nat_of_char)
  ultimately show ?thesis by (simp add: unat_of_nat take_bit_nat_eq_self)
qed

lemma low_byte_of_char [simp]: "low_byte (of_char ch) = ch"
  by (simp add: low_byte_def unat_of_char)

lemma js_Nil [simp]: "js [] = []"
  by (simp add: js_def)

lemma js_append [simp]: "js (a @ b) = js a @ js b"
  by (simp add: js_def)

lemma length_js [simp]: "length (js s) = length s"
  by (simp add: js_def)

lemma legal_sextets_js_Cons:
  "legal_sextets (js (ch # rest)) =
     (case unbase64 ch of
        Some v \<Rightarrow> v # legal_sextets (js rest)
      | None \<Rightarrow> if ch = CHR ''='' then [] else legal_sextets (js rest))"
  by (simp add: js_def split: option.splits)

lemma unbase64_base64_char: "n < 64 \<Longrightarrow> unbase64 (base64_char n) = Some n"
  by (auto simp: unbase64_def base64_char_def Let_def)


lemma base64_alphabet:
  "map base64_char [0..<64] =
     ''ABCDEFGHIJKLMNOPQRSTUVWXYZabcdefghijklmnopqrstuvwxyz0123456789-_''"
  by code_simp

lemma sextet2_bound: "(y::nat) < 256 \<Longrightarrow> (x mod 4) * 16 + y div 16 < 64"
proof -
  assume "y < 256"
  then have "y div 16 < 16" by simp
  moreover have "x mod 4 < 4" by simp
  ultimately show ?thesis by linarith
qed

lemma sextet3_bound: "(z::nat) < 256 \<Longrightarrow> (y mod 16) * 4 + z div 64 < 64"
proof -
  assume "z < 256"
  then have "z div 64 < 4" by simp
  moreover have "y mod 16 < 16" by simp
  ultimately show ?thesis by linarith
qed

lemma sextet3_bound_last: "(y mod 16) * 4 < (64::nat)"
proof -
  have "y mod 16 < 16" by simp
  then show ?thesis by linarith
qed

lemma sextet2_bound_last: "(x mod 4) * 16 < (64::nat)"
proof -
  have "x mod 4 < 4" by simp
  then show ?thesis by linarith
qed

lemma base64_groups_bound: "list_all (\<lambda>n. n < 64) (base64_groups bs)"
proof (induction bs rule: base64_groups.induct)
  case (1 a b c rest)
  have "unat a < 256" "unat b < 256" "unat c < 256" by (rule unat_byte_less)+
  then show ?case using 1 by (simp add: sextet2_bound sextet3_bound)
next
  case (2 a b)
  have "unat a < 256" "unat b < 256" by (rule unat_byte_less)+
  then show ?case by (simp add: sextet2_bound sextet3_bound_last)
next
  case (3 a)
  have "unat a < 256" by (rule unat_byte_less)
  then show ?case by (simp add: sextet2_bound_last)
qed simp

lemma legal_sextets_encode:
  "list_all (\<lambda>n. n < 64) ns \<Longrightarrow> legal_sextets (js (map base64_char ns)) = ns"
  by (induction ns) (simp_all add: legal_sextets_js_Cons unbase64_base64_char)

lemma decoded_byte1: "(y::nat) < 256 \<Longrightarrow> (x div 4) * 4 + ((x mod 4) * 16 + y div 16) div 16 = x"
proof -
  assume "y < 256"
  then have "y div 16 < 16" by simp
  then have "((x mod 4) * 16 + y div 16) div 16 = x mod 4" by simp
  then show ?thesis by simp
qed

lemma decoded_byte2: "(y::nat) < 256 \<Longrightarrow> (z::nat) < 256 \<Longrightarrow>
  (((x mod 4) * 16 + y div 16) mod 16) * 16 + ((y mod 16) * 4 + z div 64) div 4 = y"
proof -
  assume "y < 256" "z < 256"
  then have a: "y div 16 < 16" and b: "z div 64 < 4" by simp_all
  from a have "((x mod 4) * 16 + y div 16) mod 16 = y div 16" by simp
  moreover from b have "((y mod 16) * 4 + z div 64) div 4 = y mod 16" by simp
  ultimately show ?thesis by simp
qed

lemma decoded_byte3: "(z::nat) < 256 \<Longrightarrow> (((y mod 16) * 4 + z div 64) mod 4) * 64 + z mod 64 = z"
proof -
  assume "z < 256"
  then have b: "z div 64 < 4" by simp
  then have "((y mod 16) * 4 + z div 64) mod 4 = z div 64" by simp
  then show ?thesis by simp
qed

lemma decoded_byte2_last: "(y::nat) < 256 \<Longrightarrow>
  (((x mod 4) * 16 + y div 16) mod 16) * 16 + ((y mod 16) * 4) div 4 = y"
  using decoded_byte2 [of y 0 x] by simp

lemma decoded_byte1_last: "(x div 4) * 4 + ((x mod 4) * 16) div 16 = (x::nat)"
  using decoded_byte1 [of 0 x] by simp

lemma decode_groups_encode: "base64_decode_groups (base64_groups bs) = bs"
proof (induction bs rule: base64_groups.induct)
  case (1 a b c rest)
  have "unat a < 256" "unat b < 256" "unat c < 256" by (rule unat_byte_less)+
  then show ?case using 1 by (simp add: decoded_byte1 decoded_byte2 decoded_byte3)
next
  case (2 a b)
  have "unat a < 256" "unat b < 256" by (rule unat_byte_less)+
  then show ?case by (simp add: decoded_byte1 decoded_byte2_last)
next
  case (3 a)
  show ?case by (simp add: decoded_byte1_last)
qed simp

lemma base64url_roundtrip: "Buffer_from_base64url (js (toString_base64url bs)) = bs"
  by (simp add: Buffer_from_base64url_def toString_base64url_def legal_sextets_encode
      base64_groups_bound decode_groups_encode)

lemma toString_base64url_inject:
  "toString_base64url a = toString_base64url b \<Longrightarrow> a = b"
proof -
  assume "toString_base64url a = toString_base64url b"
  then have "Buffer_from_base64url (js (toString_base64url a)) =
             Buffer_from_base64url (js (toString_base64url b))"
    by simp
  then show ?thesis by (simp only: base64url_roundtrip)
qed

lemma length_base64_groups: "length (base64_groups bs) = (4 * length bs + 2) div 3"
  by (induction bs rule: base64_groups.induct) simp_all

lemma length_toString_base64url: "length (toString_base64url bs) = (4 * length bs + 2) div 3"
  by (simp add: toString_base64url_def length_base64_groups)



subsection \<open>Keystream\<close>

lemma length_keystream_xor [simp]: "length (keystream_xor c k iv off bs) = length bs"
  by (simp add: keystream_xor_def)

lemma nth_keystream_xor:
  "i < length bs \<Longrightarrow> keystream_xor c k iv off bs ! i = bs ! i XOR keystream c k iv (off + i)"
  by (simp add: keystream_xor_def)

lemma keystream_xor_involution:
  "keystream_xor c k iv off (keystream_xor c k iv off bs) = bs"
  by (rule nth_equalityI) (simp_all add: nth_keystream_xor xor.assoc)

lemma length_tag_bytes [simp]: "length (tag_bytes t) = 16"
  by (simp add: tag_bytes_def)

subsection \<open>UTF-8\<close>

lemma lead2_payload: "(q::nat) < 32 \<Longrightarrow> (192 + q) mod 32 = q"
  using mod_mult_self4 [of 32 6 q] by simp

lemma lead3_payload: "(q::nat) < 16 \<Longrightarrow> (224 + q) mod 16 = q"
  using mod_mult_self4 [of 16 14 q] by simp

lemma lead4_payload: "(q::nat) < 8 \<Longrightarrow> (240 + q) mod 8 = q"
  using mod_mult_self4 [of 8 30 q] by simp

lemma continuation_payload: "(128 + r mod 64) mod 64 = (r::nat) mod 64"
  using mod_mult_self4 [of 64 2 "r mod 64"] by simp

lemma div_4096: "(cp::nat) div 4096 = cp div 64 div 64"
  by (simp add: div_mult2_eq [symmetric])

lemma div_262144: "(cp::nat) div 262144 = cp div 4096 div 64"
  by (simp add: div_mult2_eq [symmetric])

lemma reassemble3: "((cp::nat) div 4096 * 64 + cp div 64 mod 64) * 64 + cp mod 64 = cp"
  by (simp add: div_4096)

lemma reassemble4: "(((cp::nat) div 262144 * 64 + cp div 4096 mod 64) * 64 + cp div 64 mod 64) * 64 + cp mod 64 = cp"
  by (simp add: div_262144 div_4096)

lemma second_byte_lower3: "(0x800::nat) \<le> cp \<Longrightarrow> cp div 4096 = 0 \<Longrightarrow> 32 \<le> cp div 64 mod 64"
proof -
  assume a: "0x800 \<le> cp" and b: "cp div 4096 = 0"
  from b have "cp < 4096" by simp
  then have "cp div 64 < 64" by simp
  moreover from a have "32 \<le> cp div 64" by simp
  ultimately show ?thesis by simp
qed

lemma second_byte_upper3: "(cp::nat) < 0xD800 \<Longrightarrow> cp div 4096 = 13 \<Longrightarrow> cp div 64 mod 64 < 32"
proof -
  assume a: "cp < 0xD800" and b: "cp div 4096 = 13"
  from a have "cp div 64 < 864" by simp
  moreover have "cp div 64 = 13 * 64 + cp div 64 mod 64"
    using b div_mult_mod_eq [of "cp div 64" 64] by (simp add: div_4096)
  ultimately show ?thesis by linarith
qed

lemma second_byte_lower4: "(0x10000::nat) \<le> cp \<Longrightarrow> cp div 262144 = 0 \<Longrightarrow> 16 \<le> cp div 4096 mod 64"
proof -
  assume a: "0x10000 \<le> cp" and b: "cp div 262144 = 0"
  from b have "cp < 262144" by simp
  then have "cp div 4096 < 64" by simp
  moreover from a have "16 \<le> cp div 4096" by simp
  ultimately show ?thesis by simp
qed

lemma second_byte_upper4: "(cp::nat) < 0x110000 \<Longrightarrow> cp div 262144 = 4 \<Longrightarrow> cp div 4096 mod 64 < 16"
proof -
  assume a: "cp < 0x110000" and b: "cp div 262144 = 4"
  from a have "cp div 4096 < 272" by simp
  moreover have "cp div 4096 = 4 * 64 + cp div 4096 mod 64"
    using b div_mult_mod_eq [of "cp div 4096" 64] by (simp add: div_262144)
  ultimately show ?thesis by linarith
qed

lemma continuation_step:
  "1 < needed \<Longrightarrow> lo \<le> 128 + r mod 64 \<Longrightarrow> 128 + r mod 64 \<le> hi \<Longrightarrow>
   utf8_dec (cp, needed, lo, hi) ((128 + r mod 64) # bs) =
   utf8_dec (cp * 64 + r mod 64, needed - 1, 0x80, 0xBF) bs"
  by (simp add: continuation_payload)

lemma continuation_last:
  "lo \<le> 128 + r mod 64 \<Longrightarrow> 128 + r mod 64 \<le> hi \<Longrightarrow>
   utf8_dec (cp, Suc 0, lo, hi) ((128 + r mod 64) # bs) =
   (cp * 64 + r mod 64) # utf8_dec utf8_initial bs"
  by (simp add: continuation_payload)

lemma continuation_bounds: "128 \<le> 128 + (r::nat) mod 64" "128 + (r::nat) mod 64 \<le> 191"
proof -
  have "r mod 64 < 64" by simp
  then show "128 + r mod 64 \<le> 191" by linarith
qed simp

lemma start_step:
  "utf8_dec utf8_initial (b # bs) = (case utf8_start b of (out, st) \<Rightarrow> out @ utf8_dec st bs)"
  by (simp add: utf8_initial_def)

lemma dec_ascii:
  "cp < 0x80 \<Longrightarrow> utf8_dec utf8_initial (cp # rest) = cp # utf8_dec utf8_initial rest"
  by (simp add: start_step utf8_start_def)

lemma dec_two:
  assumes "0x80 \<le> cp" "cp < 0x800"
  shows "utf8_dec utf8_initial ((0xC0 + cp div 64) # (0x80 + cp mod 64) # rest) =
         cp # utf8_dec utf8_initial rest"
proof -
  have a: "2 \<le> cp div 64" "cp div 64 < 32" using assms by simp_all
  then have st: "utf8_start (0xC0 + cp div 64) = ([], (cp div 64, 1, 0x80, 0xBF))"
    by (simp add: utf8_start_def lead2_payload)
  have "utf8_dec utf8_initial ((0xC0 + cp div 64) # (0x80 + cp mod 64) # rest) =
        utf8_dec (cp div 64, Suc 0, 0x80, 0xBF) ((128 + cp mod 64) # rest)"
    by (simp add: start_step st)
  also have "\<dots> = (cp div 64 * 64 + cp mod 64) # utf8_dec utf8_initial rest"
    using continuation_bounds [of cp] by (subst continuation_last) simp_all
  finally show ?thesis by simp
qed

lemma dec_three:
  assumes "0x800 \<le> cp" "cp < 0x10000" "\<not> (0xD800 \<le> cp \<and> cp \<le> 0xDFFF)"
  shows "utf8_dec utf8_initial
           ((0xE0 + cp div 4096) # (0x80 + cp div 64 mod 64) # (0x80 + cp mod 64) # rest) =
         cp # utf8_dec utf8_initial rest"
proof -
  define lo :: nat where "lo = (if cp div 4096 = 0 then 0xA0 else 0x80)"
  define hi :: nat where "hi = (if cp div 4096 = 13 then 0x9F else 0xBF)"
  have a: "cp div 4096 < 16" using assms by simp
  then have st: "utf8_start (0xE0 + cp div 4096) = ([], (cp div 4096, 2, lo, hi))"
    by (simp add: utf8_start_def lead3_payload lo_def hi_def)
  have lo: "lo \<le> 128 + cp div 64 mod 64"
    using second_byte_lower3 [of cp] assms continuation_bounds [of "cp div 64"] by (simp add: lo_def)
  have "cp div 4096 = 13 \<Longrightarrow> cp < 0xD800"
  proof (rule ccontr)
    assume b: "cp div 4096 = 13" and "\<not> cp < 0xD800"
    with assms have "0xE000 \<le> cp" by simp
    then have "14 \<le> cp div 4096" by simp
    with b show False by simp
  qed
  then have hi: "128 + cp div 64 mod 64 \<le> hi"
    using second_byte_upper3 [of cp] continuation_bounds [of "cp div 64"] by (cases "cp div 4096 = 13") (simp_all add: hi_def)
  have "utf8_dec utf8_initial
           ((0xE0 + cp div 4096) # (0x80 + cp div 64 mod 64) # (0x80 + cp mod 64) # rest) =
        utf8_dec (cp div 4096, 2, lo, hi) ((128 + cp div 64 mod 64) # (128 + cp mod 64) # rest)"
    by (simp add: start_step st)
  also have "\<dots> = utf8_dec (cp div 4096 * 64 + cp div 64 mod 64, Suc 0, 0x80, 0xBF)
                       ((128 + cp mod 64) # rest)"
    using lo hi by (subst continuation_step) simp_all
  also have "\<dots> = ((cp div 4096 * 64 + cp div 64 mod 64) * 64 + cp mod 64) #
                     utf8_dec utf8_initial rest"
    using continuation_bounds [of cp] by (subst continuation_last) simp_all
  finally show ?thesis by (simp only: reassemble3)
qed

lemma dec_four:
  assumes "0x10000 \<le> cp" "cp < 0x110000"
  shows "utf8_dec utf8_initial
           ((0xF0 + cp div 262144) # (0x80 + cp div 4096 mod 64) # (0x80 + cp div 64 mod 64) #
            (0x80 + cp mod 64) # rest) =
         cp # utf8_dec utf8_initial rest"
proof -
  define lo :: nat where "lo = (if cp div 262144 = 0 then 0x90 else 0x80)"
  define hi :: nat where "hi = (if cp div 262144 = 4 then 0x8F else 0xBF)"
  have a: "cp div 262144 < 5" using assms by simp
  then have a8: "cp div 262144 < 8" by simp
  have st: "utf8_start (0xF0 + cp div 262144) = ([], (cp div 262144, 3, lo, hi))"
    using a by (simp add: utf8_start_def lead4_payload [OF a8] lo_def hi_def)
  have lo: "lo \<le> 128 + cp div 4096 mod 64"
    using second_byte_lower4 [of cp] assms continuation_bounds [of "cp div 4096"] by (simp add: lo_def)
  have hi: "128 + cp div 4096 mod 64 \<le> hi"
    using second_byte_upper4 [of cp] assms continuation_bounds [of "cp div 4096"]
    by (cases "cp div 262144 = 4") (simp_all add: hi_def)
  have "utf8_dec utf8_initial
           ((0xF0 + cp div 262144) # (0x80 + cp div 4096 mod 64) # (0x80 + cp div 64 mod 64) #
            (0x80 + cp mod 64) # rest) =
        utf8_dec (cp div 262144, 3, lo, hi)
          ((128 + cp div 4096 mod 64) # (128 + cp div 64 mod 64) # (128 + cp mod 64) # rest)"
    by (simp add: start_step st)
  also have "\<dots> = utf8_dec (cp div 262144 * 64 + cp div 4096 mod 64, 2, 0x80, 0xBF)
                       ((128 + cp div 64 mod 64) # (128 + cp mod 64) # rest)"
    using lo hi by (subst continuation_step) simp_all
  also have "\<dots> = utf8_dec ((cp div 262144 * 64 + cp div 4096 mod 64) * 64 + cp div 64 mod 64,
                         Suc 0, 0x80, 0xBF) ((128 + cp mod 64) # rest)"
    using continuation_bounds [of "cp div 64"] by (subst continuation_step) simp_all
  also have "\<dots> = (((cp div 262144 * 64 + cp div 4096 mod 64) * 64 + cp div 64 mod 64) * 64
                       + cp mod 64) # utf8_dec utf8_initial rest"
    using continuation_bounds [of cp] by (subst continuation_last) simp_all
  finally show ?thesis by (simp only: reassemble4)
qed

lemma dec_encode_cp:
  "scalar cp \<Longrightarrow> utf8_dec utf8_initial (utf8_encode_cp cp @ rest) = cp # utf8_dec utf8_initial rest"
  unfolding scalar_def utf8_encode_cp_def
  using dec_ascii [of cp rest] dec_two [of cp rest] dec_three [of cp rest] dec_four [of cp rest]
  by (simp add: not_less)

lemma dec_encode:
  "list_all scalar cps \<Longrightarrow> utf8_dec utf8_initial (concat (map utf8_encode_cp cps)) = cps"
proof (induction cps)
  case Nil
  show ?case by (simp add: utf8_initial_def)
next
  case (Cons cp cps)
  then show ?case by (simp add: dec_encode_cp)
qed

lemma encode_cp_bytes: "scalar cp \<Longrightarrow> list_all (\<lambda>b. b < 256) (utf8_encode_cp cp)"
proof -
  assume "scalar cp"
  then have "cp < 0x110000" by (simp add: scalar_def)
  then have a: "cp div 262144 < 5" by simp
  have b: "128 + cp mod 64 < 256" "128 + cp div 64 mod 64 < 256" "128 + cp div 4096 mod 64 < 256"
    using continuation_bounds(2) [of cp] continuation_bounds(2) [of "cp div 64"] continuation_bounds(2) [of "cp div 4096"]
    by simp_all
  consider "cp < 0x80" | "0x80 \<le> cp" "cp < 0x800" | "0x800 \<le> cp" "cp < 0x10000" | "0x10000 \<le> cp"
    by linarith
  then show ?thesis
  proof cases
    case 1
    then show ?thesis by (simp add: utf8_encode_cp_def)
  next
    case 2
    then have "cp div 64 < 32" by simp
    with 2 b show ?thesis by (simp add: utf8_encode_cp_def)
  next
    case 3
    then have "cp div 4096 < 16" by simp
    with 3 b show ?thesis by (simp add: utf8_encode_cp_def)
  next
    case 4
    with a b show ?thesis by (simp add: utf8_encode_cp_def)
  qed
qed

lemma pair_scalar:
  assumes "is_high_surrogate u" "is_low_surrogate v"
  shows "scalar (0x10000 + (u - 0xD800) * 0x400 + (v - 0xDC00))"
    and "utf16_units (0x10000 + (u - 0xD800) * 0x400 + (v - 0xDC00)) = [u, v]"
proof -
  define a where "a = u - 0xD800"
  define b where "b = v - 0xDC00"
  have a: "a < 0x400" "u = 0xD800 + a"
    using assms(1) unfolding is_high_surrogate_def a_def by linarith+
  have b: "b < 0x400" "v = 0xDC00 + b"
    using assms(2) unfolding is_low_surrogate_def b_def by linarith+
  have c: "(a * 0x400 + b) div 0x400 = a" "(a * 0x400 + b) mod 0x400 = b" using b(1) by simp_all
  have d: "a * 0x400 + b < 0x100000" using a(1) b(1) by linarith
  show "scalar (0x10000 + (u - 0xD800) * 0x400 + (v - 0xDC00))"
    using d by (simp add: scalar_def a(2) b(2))
  show "utf16_units (0x10000 + (u - 0xD800) * 0x400 + (v - 0xDC00)) = [u, v]"
    using c by (simp add: utf16_units_def a(2) b(2) add.assoc)
qed

lemma of_nat_unat_units: "map of_nat (map unat (s :: jsstring)) = s"
  by (induction s) simp_all

lemma replacement_scalar: "scalar 0xFFFD" "utf16_units 0xFFFD = [0xFFFD]"
  by (simp_all add: scalar_def utf16_units_def)

lemma bmp_scalar:
  "\<not> is_high_surrogate u \<Longrightarrow> \<not> is_low_surrogate u \<Longrightarrow> u < 65536 \<Longrightarrow>
   scalar u \<and> utf16_units u = [u]"
  by (auto simp: scalar_def utf16_units_def is_high_surrogate_def is_low_surrogate_def)

lemma code_points_units:
  "list_all (\<lambda>u. u < 65536) us \<Longrightarrow>
   list_all scalar (code_points us)
   \<and> concat (map utf16_units (code_points us)) = toWellFormed_units us"
proof (induction us rule: code_points.induct)
  case 1
  show ?case by simp
next
  case (2 u us)
  from "2.prems" have lt: "u < 65536" and rest: "list_all (\<lambda>u. u < 65536) us" by simp_all
  show ?case
  proof (cases "is_high_surrogate u")
    case True
    show ?thesis
    proof (cases us)
      case Nil
      with True show ?thesis by (simp add: replacement_scalar)
    next
      case (Cons v vs)
      from rest Cons have vs: "list_all (\<lambda>u. u < 65536) vs" by simp
      show ?thesis
      proof (cases "is_low_surrogate v")
        case low: True
        from "2.IH"(1) [OF True Cons low vs] True Cons low pair_scalar [OF True low]
        show ?thesis by simp
      next
        case nolow: False
        from "2.IH"(2) [OF True Cons nolow rest] True Cons nolow
        show ?thesis by (simp add: replacement_scalar)
      qed
    qed
  next
    case False
    show ?thesis
    proof (cases "is_low_surrogate u")
      case low: True
      from "2.IH"(3) [OF False low rest] False low
      show ?thesis by (simp add: replacement_scalar)
    next
      case nolow: False
      from "2.IH"(4) [OF False nolow rest] False nolow bmp_scalar [OF False nolow lt]
      show ?thesis by simp
    qed
  qed
qed

lemma toWellFormed_units_id: "isWellFormed_units us \<Longrightarrow> toWellFormed_units us = us"
proof (induction us rule: isWellFormed_units.induct)
  case 1
  show ?case by simp
next
  case (2 u us)
  show ?case
  proof (cases "is_high_surrogate u")
    case True
    with "2.prems" obtain v vs where us: "us = v # vs" and v: "is_low_surrogate v"
      and wf: "isWellFormed_units vs"
      by (cases us) simp_all
    from "2.IH"(1) [OF True us wf] True us v show ?thesis by simp
  next
    case False
    with "2.prems" have nl: "\<not> is_low_surrogate u" and wf: "isWellFormed_units us" by simp_all
    from "2.IH"(2) [OF False wf] False nl show ?thesis by simp
  qed
qed

lemma toWellFormed_id: "isWellFormed s \<Longrightarrow> toWellFormed s = s"
proof -
  assume "isWellFormed s"
  then have "toWellFormed_units (map unat s) = map unat s"
    unfolding isWellFormed_def by (rule toWellFormed_units_id)
  then show ?thesis by (simp only: toWellFormed_def of_nat_unat_units)
qed

lemma unat_of_nat_bytes:
  "list_all (\<lambda>b. b < 256) xs \<Longrightarrow> map unat (map of_nat xs :: byte list) = xs"
  by (induction xs) (simp_all add: unat_of_nat take_bit_nat_eq_self)

lemma units_bound: "list_all (\<lambda>u. u < 65536) (map unat (s :: jsstring))"
proof (induction s)
  case (Cons u s)
  have "unat u < 2 ^ 16" using unsigned_less [of u, where ?'a = nat] by simp
  with Cons show ?case by simp
qed simp

lemma encode_all_bytes:
  "list_all scalar cps \<Longrightarrow> list_all (\<lambda>b. b < 256) (concat (map utf8_encode_cp cps))"
  by (induction cps) (simp_all add: encode_cp_bytes)

lemma utf8_decode_encode: "toString_utf8 (Buffer_from_utf8 s) = toWellFormed s"
proof -
  have wf: "list_all scalar (code_points (map unat s))"
    and units: "concat (map utf16_units (code_points (map unat s))) = toWellFormed_units (map unat s)"
    using code_points_units [OF units_bound, of s] by simp_all
  have "map unat (Buffer_from_utf8 s) = concat (map utf8_encode_cp (code_points (map unat s)))"
    unfolding Buffer_from_utf8_def by (rule unat_of_nat_bytes) (rule encode_all_bytes [OF wf])
  then show ?thesis
    by (simp only: toString_utf8_def dec_encode [OF wf] units toWellFormed_def)
qed

lemma toWellFormed_lone: "toWellFormed [0xD800] = [0xFFFD]"
  by (simp add: toWellFormed_def is_high_surrogate_def)

lemma utf8_roundtrip: "isWellFormed s \<Longrightarrow> toString_utf8 (Buffer_from_utf8 s) = s"
  by (simp add: utf8_decode_encode toWellFormed_id)

section \<open>What the two methods compute\<close>

text \<open>
  Both methods are unfolded once into closed forms; the claims are settled from these.
\<close>

lemma toString_hex_Nil [simp]: "toString_hex [] = []"
  by (simp add: toString_hex_def)

lemma slice_0 [simp]: "slice 0 n xs = take n xs"
  by (simp add: slice_def)

lemma toString_utf8_Nil [simp]: "toString_utf8 [] = []"
  by (simp add: toString_utf8_def utf8_initial_def)

lemma keystream_xor_Nil [simp]: "keystream_xor c k iv off [] = []"
  by (simp add: keystream_xor_def)

lemma encrypt_unfold:
  "encrypt c data forceKey iv this =
     (if iv = [] then Inl (EncryptionService_encrypt Invalid_initialization_vector)
      else Inr (toString_base64url (envelope c (selected_key c forceKey this) iv data)), this)"
  by (simp add: encrypt_def createCipheriv_def cipher_update_def cipher_final_def getAuthTag_def
      hex_roundtrip envelope_def ciphertext_def selected_key_def Let_def)

lemma decrypt_unfold:
  "decrypt c encoded forceKey this =
     (let combined = Buffer_from_base64url encoded;
          k = selected_key c forceKey this;
          iv = take 12 combined;
          t = take 16 (drop 12 combined);
          ct = drop 28 combined
      in if combined = [] then Inl (EncryptionService_decrypt Invalid_initialization_vector)
         else if \<not> valid_gcm_tag_length (length t)
           then Inl (EncryptionService_decrypt (Invalid_authentication_tag_length (length t)))
         else if take (length t) (tag_bytes (gcm_tag c k iv ct)) = t
           then Inr (toString_utf8 (keystream_xor c k iv 0 ct))
         else Inl (EncryptionService_decrypt Unable_to_authenticate_data),
      this)"
  by (simp add: decrypt_def createDecipheriv_def setAuthTag_def decipher_update_def
      decipher_final_def hex_roundtrip selected_key_def slice_def Let_def)

lemma snd_encrypt [simp]: "snd (encrypt c P forceKey r this) = this"
  by (simp add: encrypt_unfold)

lemma snd_decrypt [simp]: "snd (decrypt c encoded forceKey this) = this"
  by (simp add: decrypt_unfold)

lemma selected_key_None [simp]: "selected_key c None this = key this"
  by (simp add: selected_key_def)

lemma encrypt_ok:
  "length r = 12 \<Longrightarrow>
   encrypt c P forceKey r this =
     (Inr (toString_base64url (envelope c (selected_key c forceKey this) r P)), this)"
  by (auto simp: encrypt_unfold)

lemma length_ciphertext [simp]: "length (ciphertext c k r P) = length (Buffer_from_utf8 P)"
  by (simp add: ciphertext_def)

lemma length_envelope:
  "length (envelope c k r P) = length r + 16 + length (Buffer_from_utf8 P)"
  by (simp add: envelope_def)

lemma envelope_parts:
  assumes "length iv = 12"
  shows "take 12 (envelope c k iv data) = iv"
    and "take 16 (drop 12 (envelope c k iv data)) = tag_bytes (gcm_tag c k iv (ciphertext c k iv data))"
    and "drop 28 (envelope c k iv data) = ciphertext c k iv data"
    and "envelope c k iv data \<noteq> []"
  using assms by (auto simp: envelope_def)

lemma decrypt_envelope:
  assumes "length iv = 12"
  shows "decrypt c (js (toString_base64url (envelope c k iv data))) forceKey this =
     (if tag_bytes (gcm_tag c (selected_key c forceKey this) iv (ciphertext c k iv data)) =
         tag_bytes (gcm_tag c k iv (ciphertext c k iv data))
      then Inr (toString_utf8
                 (keystream_xor c (selected_key c forceKey this) iv 0 (ciphertext c k iv data)))
      else Inl (EncryptionService_decrypt Unable_to_authenticate_data),
      this)"
  by (simp add: decrypt_unfold base64url_roundtrip envelope_parts [OF assms] Let_def
      valid_gcm_tag_length_def)

lemma decode_ciphertext_general:
  "toString_utf8 (keystream_xor c k r 0 (ciphertext c k r P)) = toWellFormed P"
  by (simp add: ciphertext_def keystream_xor_involution utf8_decode_encode)

lemma decode_ciphertext:
  "isWellFormed P \<Longrightarrow> toString_utf8 (keystream_xor c k r 0 (ciphertext c k r P)) = P"
  by (simp add: decode_ciphertext_general toWellFormed_id)

lemma decrypt_envelope_selected:
  assumes "length iv = 12" "selected_key c forceKey this = k"
  shows "decrypt c (js (toString_base64url (envelope c k iv data))) forceKey this
         = (Inr (toWellFormed data), this)"
  by (simp add: decrypt_envelope [OF assms(1)] assms(2) decode_ciphertext_general)

lemma decrypt_envelope_same_key:
  assumes "length iv = 12" "isWellFormed data" "selected_key c forceKey this = k"
  shows "decrypt c (js (toString_base64url (envelope c k iv data))) forceKey this = (Inr data, this)"
  by (simp add: decrypt_envelope [OF assms(1)] assms(3) ciphertext_def keystream_xor_involution
      utf8_roundtrip [OF assms(2)])

lemma decrypt_cong:
  "Buffer_from_base64url a = Buffer_from_base64url b \<Longrightarrow>
   decrypt c a forceKey this = decrypt c b forceKey this"
  by (simp add: decrypt_unfold)

lemma constructor_Inr:
  "constructor c (Some secret) = Inr this \<Longrightarrow>
   secret \<noteq> [] \<and> selected_key c (Some secret) this = key this"
  by (auto simp: constructor_def selected_key_def split: if_splits)

lemma unbase64_equals [simp]: "unbase64 CHR ''='' = None"
  by (simp add: unbase64_def)

lemma legal_sextets_low_bytes:
  "legal_sextets (js (filter (\<lambda>ch. unbase64 ch \<noteq> None)
     (takeWhile (\<lambda>ch. ch \<noteq> CHR ''='') (map low_byte s)))) = legal_sextets s"
  by (induction s) (auto simp: legal_sextets_js_Cons split: option.splits)

lemma legal_sextets_append:
  "list_all (\<lambda>n. n < 64) ns \<Longrightarrow>
   legal_sextets (js (map base64_char ns) @ rest) = ns @ legal_sextets rest"
  by (induction ns) (simp_all add: js_def unbase64_base64_char)


lemma flipped_byte_differs: "j < 8 \<Longrightarrow> (b :: byte) XOR push_bit j 1 \<noteq> b"
proof
  assume j: "j < 8" and "b XOR push_bit j 1 = b"
  then have "bit (b XOR push_bit j 1) j = bit b j" by simp
  with j show False by (simp add: bit_simps)
qed

lemma length_flip_bit_at [simp]: "length (flip_bit_at i j bs) = length bs"
  by (simp add: flip_bit_at_def)

lemma flip_bit_at_differs: "i < length bs \<Longrightarrow> j < 8 \<Longrightarrow> flip_bit_at i j bs ! i \<noteq> bs ! i"
  using flipped_byte_differs [of j "bs ! i"] by (simp add: flip_bit_at_def)

lemma take_flip_bit_at: "n \<le> i \<Longrightarrow> take n (flip_bit_at i j bs) = take n bs"
  by (simp add: flip_bit_at_def)

lemma drop_flip_bit_at: "i < n \<Longrightarrow> drop n (flip_bit_at i j bs) = drop n bs"
  by (simp add: flip_bit_at_def)

lemma isWellFormed_hi: "isWellFormed (js ''hi'')"
  by (simp add: isWellFormed_def js_def is_high_surrogate_def is_low_surrogate_def)

lemma js_s3cret [simp]: "js ''s3cret'' \<noteq> []"
  by (simp add: js_def)

lemma sixteen_zero_bytes:
  "Buffer_from_base64url (js ''AAAAAAAAAAAAAAAAAAAAAA'') = [0,0,0,0,0,0,0,0,0,0,0,0,0,0,0,0]"
  by (simp add: Buffer_from_base64url_def legal_sextets_js_Cons unbase64_def)

lemma sixteen_zero_bytes_replicate:
  "Buffer_from_base64url (js ''AAAAAAAAAAAAAAAAAAAAAA'') = replicate 16 0"
  unfolding sixteen_zero_bytes by (simp add: numeral_eq_Suc)

lemma decode_example: "Buffer_from_base64url (js ''Q U*JD!'') = [0x41, 0x42, 0x43]"
  by (simp add: Buffer_from_base64url_def legal_sextets_js_Cons unbase64_def)

lemma decode_low_byte_head:
  "Buffer_from_base64url (u # rest) = Buffer_from_base64url (of_char (low_byte u) # rest)"
  by (simp add: Buffer_from_base64url_def)

lemma low_byte_0x141: "low_byte 0x141 = CHR ''A''"
  by (simp add: low_byte_def char_of_def)

lemma replicate_12: "replicate 12 x = x # x # x # replicate 9 x"
  by (simp add: numeral_eq_Suc)

lemma base64_char_0: "base64_char 0 = CHR ''A''"
  by code_simp

lemma token_starts_with_A:
  "\<exists>rest. toString_base64url (envelope c k (replicate 12 0) P) = CHR ''A'' # rest"
  by (simp add: envelope_def replicate_12 toString_base64url_def base64_char_0)


lemma length_utf8_folder_id:
  "length (Buffer_from_utf8 (js ''1rTymTXw2xXa8nm7FbN53yXSmEtvR0_UR'')) = 33"
  by (simp add: Buffer_from_utf8_def js_def is_high_surrogate_def is_low_surrogate_def
      utf8_encode_cp_def)







lemma scrypt_sample [simp]:
  "scryptSync sample_crypto password salt = of_nat (length password)"
  "gcm_tag sample_crypto k iv ct = ucast k"
  "keystream sample_crypto k iv i = 0"
  by (simp_all add: sample_crypto_def)





section \<open>The claims\<close>

text \<open>
  \<^bold>\<open>Claim C1\<close> (round trip).  For every plaintext \<open>P\<close>, the empty string and text beyond
  ASCII included, decrypting the token that \<^verbatim>\<open>encrypt\<close> produced for \<open>P\<close> under the same
  key returns exactly \<open>P\<close>.  A plaintext is a string that UTF-8 can represent: a
  JavaScript string in which no surrogate stands alone.  \<open>random12\<close> is the nonce
  \<^verbatim>\<open>randomBytes(12)\<close> returned; the statement holds for all primitives \<open>c\<close> and every
  service object.
\<close>

theorem round_trip:
  assumes "isWellFormed P" and "length random12 = 12"
  shows "\<exists>token. encrypt c P None random12 this = (Inr token, this)
           \<and> decrypt c (js token) None this = (Inr P, this)"
  using assms by (simp add: encrypt_ok decrypt_envelope_same_key)

text \<open>
  The hypotheses hold for the empty string and for the five code units of
  \<^verbatim>\<open>h\<close>, \<^verbatim>\<open>U+00E9\<close>, \<^verbatim>\<open>U+20AC\<close> and the surrogate pair of \<^verbatim>\<open>U+1F600\<close>.
\<close>

theorem round_trip_witness:
  "isWellFormed [0x68, 0xE9, 0x20AC, 0xD83D, 0xDE00] \<and> isWellFormed []
   \<and> length (replicate 12 (0 :: byte)) = 12
   \<and> (\<forall>c this. \<exists>token.
         encrypt c [0x68, 0xE9, 0x20AC, 0xD83D, 0xDE00] None (replicate 12 0) this = (Inr token, this)
         \<and> decrypt c (js token) None this = (Inr [0x68, 0xE9, 0x20AC, 0xD83D, 0xDE00], this))
   \<and> (\<forall>c this. \<exists>token.
         encrypt c [] None (replicate 12 0) this = (Inr token, this)
         \<and> decrypt c (js token) None this = (Inr [], this))"
proof -
  have a: "isWellFormed [0x68, 0xE9, 0x20AC, 0xD83D, 0xDE00]"
    by (simp add: isWellFormed_def is_high_surrogate_def is_low_surrogate_def)
  have b: "isWellFormed []" by (simp add: isWellFormed_def)
  have l: "length (replicate 12 (0 :: byte)) = 12" by simp
  show ?thesis
    using a b l round_trip [OF a l] round_trip [OF b l]
    by blast
qed

text \<open>
  \<^bold>\<open>Claim C2\<close> (tokens shorter than 28 bytes), as the code has it.  \<^verbatim>\<open>decrypt\<close> checks no
  length.  When the decoded bytes are fewer than 28, the outcome is decided by the
  \<^verbatim>\<open>crypto\<close> calls: an empty buffer is refused by \<^verbatim>\<open>createDecipheriv\<close> (no initialization
  vector); a tag slice whose length GCM does not allow is refused by \<^verbatim>\<open>setAuthTag\<close>,
  after the cipher was opened; and with 16, 20 or 24 to 27 bytes the token goes through
  the tag comparison with a shortened tag, so that \<^verbatim>\<open>decrypt\<close> returns the empty
  plaintext when the shortened tag matches and throws the authentication error when it
  does not.  Every failure is rethrown as the same \<^verbatim>\<open>Error\<close> of \<^verbatim>\<open>decrypt\<close>.
\<close>

theorem short_token_outcome:
  assumes "length (Buffer_from_base64url encoded) < 28"
  shows "decrypt c encoded forceKey this =
     (let combined = Buffer_from_base64url encoded;
          n = length combined
      in if n = 0 then Inl (EncryptionService_decrypt Invalid_initialization_vector)
         else if valid_gcm_tag_length (n - 12) then
           (if take (n - 12)
                 (tag_bytes (gcm_tag c (selected_key c forceKey this) (take 12 combined) []))
               = drop 12 combined
            then Inr []
            else Inl (EncryptionService_decrypt Unable_to_authenticate_data))
         else Inl (EncryptionService_decrypt (Invalid_authentication_tag_length (n - 12))),
      this)"
proof -
  define combined where "combined = Buffer_from_base64url encoded"
  have n: "length combined < 28" using assms by (simp add: combined_def)
  then have t: "take 16 (drop 12 combined) = drop 12 combined"
    and ct: "drop 28 combined = []"
    and lt: "length (drop 12 combined) = length combined - 12"
    by simp_all
  show ?thesis
    unfolding decrypt_unfold combined_def [symmetric] Let_def t ct lt
    by simp
qed

text \<open>The hypothesis holds for the 22 characters that decode to 16 zero bytes.\<close>

theorem short_token_outcome_witness:
  "length (Buffer_from_base64url (js ''AAAAAAAAAAAAAAAAAAAAAA'')) < 28
   \<and> (\<forall>c forceKey this.
        decrypt c (js ''AAAAAAAAAAAAAAAAAAAAAA'') forceKey this =
          (if take 4 (tag_bytes (gcm_tag c (selected_key c forceKey this) (replicate 12 0) []))
                = replicate 4 0
           then Inr []
           else Inl (EncryptionService_decrypt Unable_to_authenticate_data),
           this))"
proof -
  have l: "length (Buffer_from_base64url (js ''AAAAAAAAAAAAAAAAAAAAAA'')) < 28"
    by (simp add: sixteen_zero_bytes_replicate)
  show ?thesis
    using l short_token_outcome [OF l]
    by (simp add: sixteen_zero_bytes_replicate valid_gcm_tag_length_def)
qed

text \<open>
  Against claim C2 as stated: a token of 16 decoded bytes is not rejected for its length.
  It either decrypts to the empty string or fails with the authentication error.  A token
  of one decoded byte is refused by \<^verbatim>\<open>setAuthTag\<close>, on a decipher object that
  \<^verbatim>\<open>createDecipheriv\<close> has opened with that byte as initialization vector.
\<close>

theorem short_token_not_rejected_by_length:
  "length (Buffer_from_base64url (js ''AAAAAAAAAAAAAAAAAAAAAA'')) = 16
   \<and> (\<forall>c forceKey this.
         fst (decrypt c (js ''AAAAAAAAAAAAAAAAAAAAAA'') forceKey this) = Inr []
         \<or> fst (decrypt c (js ''AAAAAAAAAAAAAAAAAAAAAA'') forceKey this)
             = Inl (EncryptionService_decrypt Unable_to_authenticate_data))
   \<and> length (Buffer_from_base64url (js ''AA'')) = 1
   \<and> (\<forall>k. \<exists>decipher. createDecipheriv k (slice 0 12 (Buffer_from_base64url (js ''AA''))) = Inr decipher)
   \<and> (\<forall>c forceKey this.
         decrypt c (js ''AA'') forceKey this
           = (Inl (EncryptionService_decrypt (Invalid_authentication_tag_length 0)), this))"
proof -
  have one: "Buffer_from_base64url (js ''AA'') = [0]"
    by (simp add: Buffer_from_base64url_def legal_sextets_js_Cons unbase64_def)
  show ?thesis
    by (simp add: decrypt_unfold sixteen_zero_bytes_replicate valid_gcm_tag_length_def Let_def
        one createDecipheriv_def)
qed

text \<open>
  \<^bold>\<open>Claim C3\<close> (characters outside the alphabet), as the code has it.  The decoding step
  of \<^verbatim>\<open>decrypt\<close> rejects nothing.  It reads every code unit of the string by its low
  byte, skips every unit whose low byte is no base64 or base64url character, and stops
  at the first unit whose low byte is \<open>=\<close>.  \<^verbatim>\<open>decrypt\<close> of a string is \<^verbatim>\<open>decrypt\<close> of
  the legal characters among the low bytes before that point; an error, if any, comes
  from the later \<^verbatim>\<open>crypto\<close> calls.
\<close>

theorem decrypt_skips_illegal_characters:
  "decrypt c encoded forceKey this =
   decrypt c (js (filter (\<lambda>ch. unbase64 ch \<noteq> None)
                (takeWhile (\<lambda>ch. ch \<noteq> CHR ''='') (map low_byte encoded))))
     forceKey this"
  by (rule decrypt_cong) (simp only: Buffer_from_base64url_def legal_sextets_low_bytes)

text \<open>
  Against claim C3 as stated: a string with a space, \<open>*\<close> and \<open>!\<close> decodes to bytes; a
  valid token with a space in front and \<open>!*\<close> behind still decrypts to its plaintext;
  and so does a valid token whose first character \<open>A\<close> is replaced by the code unit
  \<^verbatim>\<open>U+0141\<close>, whose low byte is \<open>A\<close>.
\<close>

theorem illegal_characters_not_rejected:
  "Buffer_from_base64url (js ''Q U*JD!'') = [0x41, 0x42, 0x43]
   \<and> (\<forall>c this. \<exists>token.
         encrypt c (js ''hi'') None (replicate 12 0) this = (Inr token, this)
         \<and> decrypt c (js (CHR '' '' # token @ ''!*'')) None this = (Inr (js ''hi''), this))
   \<and> (\<forall>c this. \<exists>rest.
         encrypt c (js ''hi'') None (replicate 12 0) this = (Inr (CHR ''A'' # rest), this)
         \<and> decrypt c (0x141 # js rest) None this = (Inr (js ''hi''), this))"
proof (intro conjI allI)
  show "Buffer_from_base64url (js ''Q U*JD!'') = [0x41, 0x42, 0x43]"
    by (rule decode_example)
next
  fix c :: crypto and this :: EncryptionService
  have "decrypt c (js (CHR '' '' # toString_base64url bs @ ''!*'')) None this
        = decrypt c (js (toString_base64url bs)) None this" for bs
    by (rule decrypt_cong)
      (simp add: Buffer_from_base64url_def toString_base64url_def legal_sextets_append
        base64_groups_bound legal_sextets_encode legal_sextets_js_Cons unbase64_def)
  then show "\<exists>token.
         encrypt c (js ''hi'') None (replicate 12 0) this = (Inr token, this)
         \<and> decrypt c (js (CHR '' '' # token @ ''!*'')) None this = (Inr (js ''hi''), this)"
    by (simp add: encrypt_ok decrypt_envelope_same_key isWellFormed_hi)
next
  fix c :: crypto and this :: EncryptionService
  obtain rest where
    t: "toString_base64url (envelope c (key this) (replicate 12 0) (js ''hi'')) = CHR ''A'' # rest"
    using token_starts_with_A by blast
  have "Buffer_from_base64url (0x141 # js rest) = Buffer_from_base64url (js (CHR ''A'' # rest))"
    by (simp add: decode_low_byte_head [of "0x141"] low_byte_0x141 js_def)
  then have "decrypt c (0x141 # js rest) None this = decrypt c (js (CHR ''A'' # rest)) None this"
    by (rule decrypt_cong)
  also have "\<dots> = (Inr (js ''hi''), this)"
    unfolding t [symmetric] by (simp add: decrypt_envelope_same_key isWellFormed_hi)
  finally have d: "decrypt c (0x141 # js rest) None this = (Inr (js ''hi''), this)" .
  have "encrypt c (js ''hi'') None (replicate 12 0) this = (Inr (CHR ''A'' # rest), this)"
    by (simp add: encrypt_ok t)
  with d show "\<exists>rest.
         encrypt c (js ''hi'') None (replicate 12 0) this = (Inr (CHR ''A'' # rest), this)
         \<and> decrypt c (0x141 # js rest) None this = (Inr (js ''hi''), this)"
    by blast
qed

text \<open>
  \<^bold>\<open>Claim C4\<close> (explicit key).  For every plaintext \<open>P\<close> (a string that UTF-8 can
  represent, as in claim C1) and every secret \<open>k\<close>, decrypting with the explicit secret
  \<open>k\<close> a token encrypted with the explicit secret \<open>k\<close> returns \<open>P\<close>.
  A call with an explicit secret computes what the call without one computes on an
  object holding the key selected for that secret: the two paths differ in the key only.
  When the explicit secret is the runtime secret the object was constructed from, a token
  of either path is decrypted by the other.
\<close>

theorem explicit_key_round_trip:
  assumes "isWellFormed P" and "length r = 12"
  shows "(\<exists>token. encrypt c P (Some k) r this = (Inr token, this)
            \<and> decrypt c (js token) (Some k) this = (Inr P, this))
    \<and> fst (encrypt c P (Some k) r this)
        = fst (encrypt c P None r \<lparr>key = selected_key c (Some k) this\<rparr>)
    \<and> fst (decrypt c encoded (Some k) this)
        = fst (decrypt c encoded None \<lparr>key = selected_key c (Some k) this\<rparr>)
    \<and> (constructor c (Some secret) = Inr this \<longrightarrow>
         (\<exists>token. encrypt c P None r this = (Inr token, this)
            \<and> decrypt c (js token) (Some secret) this = (Inr P, this))
         \<and> (\<exists>token. encrypt c P (Some secret) r this = (Inr token, this)
            \<and> decrypt c (js token) None this = (Inr P, this)))"
proof -
  have a: "\<exists>token. encrypt c P (Some k) r this = (Inr token, this)
            \<and> decrypt c (js token) (Some k) this = (Inr P, this)"
    using assms by (simp add: encrypt_ok decrypt_envelope_same_key)
  have b: "fst (encrypt c P (Some k) r this)
        = fst (encrypt c P None r \<lparr>key = selected_key c (Some k) this\<rparr>)"
    by (simp add: encrypt_unfold)
  have d: "fst (decrypt c encoded (Some k) this)
        = fst (decrypt c encoded None \<lparr>key = selected_key c (Some k) this\<rparr>)"
    by (simp add: decrypt_unfold)
  have e: "(\<exists>token. encrypt c P None r this = (Inr token, this)
            \<and> decrypt c (js token) (Some secret) this = (Inr P, this))
         \<and> (\<exists>token. encrypt c P (Some secret) r this = (Inr token, this)
            \<and> decrypt c (js token) None this = (Inr P, this))"
    if "constructor c (Some secret) = Inr this"
    using assms constructor_Inr [OF that]
    by (simp add: encrypt_ok decrypt_envelope_same_key)
  from a b d e show ?thesis by blast
qed

theorem explicit_key_round_trip_witness:
  "isWellFormed (js ''hi'') \<and> length (replicate 12 (0 :: byte)) = 12
   \<and> (\<forall>c. \<exists>this. constructor c (Some (js ''s3cret'')) = Inr this
         \<and> (\<exists>token. encrypt c (js ''hi'') (Some (js ''s3cret'')) (replicate 12 0) this
                        = (Inr token, this)
               \<and> decrypt c (js token) (Some (js ''s3cret'')) this = (Inr (js ''hi''), this))
         \<and> (\<exists>token. encrypt c (js ''hi'') None (replicate 12 0) this = (Inr token, this)
               \<and> decrypt c (js token) (Some (js ''s3cret'')) this = (Inr (js ''hi''), this))
         \<and> (\<exists>token. encrypt c (js ''hi'') (Some (js ''s3cret'')) (replicate 12 0) this
                        = (Inr token, this)
               \<and> decrypt c (js token) None this = (Inr (js ''hi''), this)))"
proof -
  have l: "length (replicate 12 (0 :: byte)) = 12" by simp
  have "\<exists>this. constructor c (Some (js ''s3cret'')) = Inr this" for c
    by (simp add: constructor_def)
  then show ?thesis
    using isWellFormed_hi l
      explicit_key_round_trip [OF isWellFormed_hi l, where k = "js ''s3cret''"
        and secret = "js ''s3cret''"]
    by metis
qed






text \<open>
  \<^bold>\<open>Claim C8\<close> (distinct nonces).  Two \<^verbatim>\<open>encrypt\<close> calls on the same plaintext under the
  same key that draw distinct nonces return distinct tokens, and each token determines
  its nonce: the first 12 decoded bytes.
\<close>

theorem distinct_nonces_distinct_tokens:
  assumes "length r1 = 12" and "length r2 = 12" and "r1 \<noteq> r2"
  shows "\<exists>t1 t2. encrypt c P forceKey r1 this = (Inr t1, this)
           \<and> encrypt c P forceKey r2 this = (Inr t2, this)
           \<and> t1 \<noteq> t2
           \<and> take 12 (Buffer_from_base64url (js t1)) = r1
           \<and> take 12 (Buffer_from_base64url (js t2)) = r2"
proof -
  define k where "k = selected_key c forceKey this"
  have 1: "take 12 (Buffer_from_base64url (js (toString_base64url (envelope c k r1 P)))) = r1"
    and 2: "take 12 (Buffer_from_base64url (js (toString_base64url (envelope c k r2 P)))) = r2"
    using assms by (simp_all add: base64url_roundtrip envelope_parts)
  from 1 2 assms(3)
  have "toString_base64url (envelope c k r1 P) \<noteq> toString_base64url (envelope c k r2 P)"
    by metis
  with 1 2 show ?thesis
    using assms by (simp add: encrypt_ok k_def)
qed

theorem distinct_nonces_distinct_tokens_witness:
  "length (replicate 12 (0 :: byte)) = 12 \<and> length (replicate 12 (1 :: byte)) = 12
   \<and> replicate 12 (0 :: byte) \<noteq> replicate 12 1
   \<and> (\<forall>c this. \<exists>t1 t2.
         encrypt c (js ''hi'') None (replicate 12 0) this = (Inr t1, this)
         \<and> encrypt c (js ''hi'') None (replicate 12 1) this = (Inr t2, this)
         \<and> t1 \<noteq> t2)"
proof -
  have l0: "length (replicate 12 (0 :: byte)) = 12"
    and l1: "length (replicate 12 (1 :: byte)) = 12" by simp_all
  have ne: "replicate 12 (0 :: byte) \<noteq> replicate 12 1" by (simp add: replicate_eq_replicate)
  show ?thesis
  proof (intro conjI allI)
    fix c this
    from distinct_nonces_distinct_tokens [OF l0 l1 ne, of c "js ''hi''" None this]
    show "\<exists>t1 t2.
         encrypt c (js ''hi'') None (replicate 12 0) this = (Inr t1, this)
         \<and> encrypt c (js ''hi'') None (replicate 12 1) this = (Inr t2, this)
         \<and> t1 \<noteq> t2"
      by blast
  qed (rule l0 l1 ne)+
qed

text \<open>
  \<^bold>\<open>Claim C9\<close> (initialization).  Without a runtime secret (the variable unset, or
  empty) the constructor throws and no service object exists that could serve a call.  With a non-empty secret it succeeds
  with the 32-byte key that scrypt derives from the secret and \<^verbatim>\<open>SALT\<close>.  The key is
  derived there and nowhere else on the default path: a call without an explicit secret
  returns the same whatever the key derivation function is.
\<close>

theorem constructor_outcome:
  "constructor c None = Inl ENCRYPTION_KEY_is_required
   \<and> constructor c (Some []) = Inl ENCRYPTION_KEY_is_required
   \<and> (\<forall>this. constructor c None \<noteq> Inr this)
   \<and> (secret \<noteq> [] \<longrightarrow>
        constructor c (Some secret) =
          Inr \<lparr>key = scryptSync c (Buffer_from_utf8 secret) (Buffer_from_utf8 SALT)\<rparr>)
   \<and> encrypt (c\<lparr>scryptSync := f\<rparr>) P None r this = encrypt c P None r this
   \<and> decrypt (c\<lparr>scryptSync := f\<rparr>) encoded None this = decrypt c encoded None this"
  by (simp add: constructor_def encrypt_unfold decrypt_unfold envelope_def ciphertext_def
      keystream_xor_def Let_def)

theorem constructor_outcome_witness:
  "js ''s3cret'' \<noteq> []
   \<and> (\<forall>c. constructor c (Some (js ''s3cret'')) =
          Inr \<lparr>key = scryptSync c (Buffer_from_utf8 (js ''s3cret'')) (Buffer_from_utf8 SALT)\<rparr>)"
  using constructor_outcome [where secret = "js ''s3cret''"] by simp

text \<open>
  \<^bold>\<open>Claim C10\<close> (frame).  No method assigns the \<^verbatim>\<open>key\<close> field: \<^verbatim>\<open>encrypt\<close> and
  \<^verbatim>\<open>decrypt\<close> leave the object as it was, with or without an explicit secret, and a
  default-key call after a call with an explicit secret returns what it returns without
  that call.
\<close>

theorem override_leaves_default_key:
  "snd (encrypt c P forceKey r this) = this
   \<and> snd (decrypt c encoded forceKey this) = this
   \<and> key (snd (encrypt c P (Some k) r this)) = key this
   \<and> key (snd (decrypt c encoded (Some k) this)) = key this
   \<and> encrypt c P' None r' (snd (encrypt c P (Some k) r this)) = encrypt c P' None r' this
   \<and> decrypt c encoded' None (snd (encrypt c P (Some k) r this)) = decrypt c encoded' None this
   \<and> encrypt c P' None r' (snd (decrypt c encoded (Some k) this)) = encrypt c P' None r' this
   \<and> decrypt c encoded' None (snd (decrypt c encoded (Some k) this))
       = decrypt c encoded' None this"
  by simp

section \<open>Further properties\<close>

text \<open>
  Strings that UTF-8 cannot represent.  \<^verbatim>\<open>encrypt\<close> accepts any JavaScript string; the
  UTF-8 encoding writes U+FFFD for a surrogate that stands alone, so that such a string
  comes back with each lone surrogate replaced by U+FFFD.
\<close>

lemma round_trip_any_string:
  assumes "length random12 = 12"
  shows "\<exists>token. encrypt c P forceKey random12 this = (Inr token, this)
           \<and> decrypt c (js token) forceKey this = (Inr (toWellFormed P), this)"
  using assms by (simp add: encrypt_ok decrypt_envelope_selected)

text \<open>
  Tampering with the tag.  Inverting any one bit of the 16 tag bytes of a token's envelope
  makes \<^verbatim>\<open>decrypt\<close> fail with the authentication error, for all primitives.
\<close>

theorem tampered_tag_detected:
  assumes "length r = 12" and "12 \<le> i" and "i < 28" and "j < 8"
  shows "decrypt c (js (toString_base64url
            (flip_bit_at i j (envelope c (selected_key c forceKey this) r P)))) forceKey this
         = (Inl (EncryptionService_decrypt Unable_to_authenticate_data), this)"
proof -
  define k where "k = selected_key c forceKey this"
  define env where "env = envelope c k r P"
  define env' where "env' = flip_bit_at i j env"
  have len: "length env = 28 + length (Buffer_from_utf8 P)"
    using assms(1) by (simp add: env_def length_envelope)
  have iv: "take 12 env' = r"
    using assms by (simp add: env'_def take_flip_bit_at env_def envelope_parts)
  have ct: "drop 28 env' = ciphertext c k r P"
    using assms by (simp add: env'_def drop_flip_bit_at env_def envelope_parts)
  have tag: "take 16 (drop 12 env) = tag_bytes (gcm_tag c k r (ciphertext c k r P))"
    using assms(1) by (simp add: env_def envelope_parts)
  have "take 16 (drop 12 env') ! (i - 12) = env' ! i"
    using assms len by (simp add: env'_def)
  moreover have "take 16 (drop 12 env) ! (i - 12) = env ! i"
    using assms len by simp
  moreover have "env' ! i \<noteq> env ! i"
    using assms len by (simp add: env'_def flip_bit_at_differs)
  ultimately have "take 16 (drop 12 env') \<noteq> take 16 (drop 12 env)"
    by auto
  then have ne: "tag_bytes (gcm_tag c k r (ciphertext c k r P)) \<noteq> take 16 (drop 12 env')"
    unfolding tag by (rule not_sym)
  define t' where "t' = take 16 (drop 12 env')"
  have l16: "length t' = 16"
    using len by (simp add: env'_def t'_def)
  have "length env' = 28 + length (Buffer_from_utf8 P)" using len by (simp add: env'_def)
  then have nonempty: "env' \<noteq> []" by auto
  have "decrypt c (js (toString_base64url env')) forceKey this =
     (if env' = [] then Inl (EncryptionService_decrypt Invalid_initialization_vector)
      else if \<not> valid_gcm_tag_length 16
        then Inl (EncryptionService_decrypt (Invalid_authentication_tag_length 16))
      else if take 16 (tag_bytes (gcm_tag c k r (ciphertext c k r P))) = t'
        then Inr (toString_utf8 (keystream_xor c k r 0 (ciphertext c k r P)))
      else Inl (EncryptionService_decrypt Unable_to_authenticate_data),
      this)"
    by (simp only: decrypt_unfold base64url_roundtrip Let_def k_def [symmetric]
        t'_def [symmetric] iv ct l16)
  also have "\<dots> = (Inl (EncryptionService_decrypt Unable_to_authenticate_data), this)"
    using ne nonempty by (simp add: valid_gcm_tag_length_def t'_def)
  finally show ?thesis
    by (simp only: env'_def env_def k_def)
qed

theorem tampered_tag_detected_witness:
  "length (replicate 12 (0 :: byte)) = 12 \<and> (12 :: nat) \<le> 27 \<and> (27 :: nat) < 28 \<and> (0 :: nat) < 8
   \<and> (\<forall>c this.
         decrypt c (js (toString_base64url
            (flip_bit_at 27 0 (envelope c (selected_key c None this) (replicate 12 0) (js ''hi'')))))
            None this
         = (Inl (EncryptionService_decrypt Unable_to_authenticate_data), this))"
proof -
  have l: "length (replicate 12 (0 :: byte)) = 12" by simp
  show ?thesis
    using tampered_tag_detected [OF l, where i = 27 and j = 0 and forceKey = None] by simp
qed

text \<open>
  No plaintext without the tag.  Whenever \<^verbatim>\<open>decrypt\<close> returns a string, the tag slice
  of the token equals the leading bytes of the tag computed for the token's nonce and
  ciphertext, and the string is the decoding of that ciphertext.
\<close>

theorem plaintext_only_after_tag_check:
  assumes "decrypt c encoded forceKey this = (Inr p, this)"
  shows "take (length (take 16 (drop 12 (Buffer_from_base64url encoded))))
           (tag_bytes (gcm_tag c (selected_key c forceKey this)
              (take 12 (Buffer_from_base64url encoded))
              (drop 28 (Buffer_from_base64url encoded))))
         = take 16 (drop 12 (Buffer_from_base64url encoded))
     \<and> p = toString_utf8 (keystream_xor c (selected_key c forceKey this)
              (take 12 (Buffer_from_base64url encoded)) 0
              (drop 28 (Buffer_from_base64url encoded)))"
  using assms unfolding decrypt_unfold Let_def
  by (simp split: if_splits)

theorem plaintext_only_after_tag_check_witness:
  "\<forall>c this.
     decrypt c (js (toString_base64url (envelope c (key this) (replicate 12 0) (js ''hi'')))) None this
       = (Inr (js ''hi''), this)
     \<and> js ''hi'' = toString_utf8 (keystream_xor c (selected_key c None this)
          (take 12 (Buffer_from_base64url
             (js (toString_base64url (envelope c (key this) (replicate 12 0) (js ''hi'')))))) 0
          (drop 28 (Buffer_from_base64url
             (js (toString_base64url (envelope c (key this) (replicate 12 0) (js ''hi'')))))))"
proof (intro allI)
  fix c this
  have a: "decrypt c (js (toString_base64url (envelope c (key this) (replicate 12 0) (js ''hi''))))
             None this = (Inr (js ''hi''), this)"
    by (simp add: decrypt_envelope_same_key isWellFormed_hi)
  from a plaintext_only_after_tag_check [OF a]
  show "decrypt c (js (toString_base64url (envelope c (key this) (replicate 12 0) (js ''hi'')))) None this
       = (Inr (js ''hi''), this)
     \<and> js ''hi'' = toString_utf8 (keystream_xor c (selected_key c None this)
          (take 12 (Buffer_from_base64url
             (js (toString_base64url (envelope c (key this) (replicate 12 0) (js ''hi'')))))) 0
          (drop 28 (Buffer_from_base64url
             (js (toString_base64url (envelope c (key this) (replicate 12 0) (js ''hi'')))))))"
    by blast
qed

text \<open>
  The folder identifier \<^verbatim>\<open>1rTymTXw2xXa8nm7FbN53yXSmEtvR0_UR\<close> has 33 bytes; its envelope
  has 61 bytes and its token 82 characters.
\<close>

theorem folder_id_token_length:
  assumes "length r = 12"
  shows "length (Buffer_from_utf8 (js ''1rTymTXw2xXa8nm7FbN53yXSmEtvR0_UR'')) = 33
     \<and> (\<exists>token. encrypt c (js ''1rTymTXw2xXa8nm7FbN53yXSmEtvR0_UR'') forceKey r this
                    = (Inr token, this)
            \<and> length (Buffer_from_base64url (js token)) = 61 \<and> length token = 82)"
  using assms
  by (simp add: encrypt_ok base64url_roundtrip length_toString_base64url length_envelope
      length_utf8_folder_id)

theorem folder_id_token_length_witness:
  "length (replicate 12 (0 :: byte)) = 12
   \<and> (\<forall>c this. \<exists>token.
         encrypt c (js ''1rTymTXw2xXa8nm7FbN53yXSmEtvR0_UR'') None (replicate 12 0) this
           = (Inr token, this)
         \<and> length token = 82)"
proof -
  have l: "length (replicate 12 (0 :: byte)) = 12" by simp
  show ?thesis
    using l folder_id_token_length [OF l, where forceKey = None] by blast
qed


end
